theory Spec2Isabelle
  imports Main
begin

section \<open>A Brainfuck interpreter (interpreter.py)\<close>

text \<open>
  The development embeds the Python module \<^verbatim>\<open>interpreter.py\<close>: the class
  \<^verbatim>\<open>Memory\<close> (the tape), the depth analysis \<^verbatim>\<open>getNestingLevels\<close>, the two jump
  resolvers \<^verbatim>\<open>findLevelClosing\<close> and \<^verbatim>\<open>findLevelOpening\<close>, and the dispatch loop
  \<^verbatim>\<open>brainfuck\<close>.

  Python integers are unbounded, so cell values, the pointer and depths are \<open>int\<close>.
  The program text is a \<open>string\<close>; text written to the terminal and lines read from it
  are lists of Unicode code points, because \<^verbatim>\<open>chr\<close> reaches code points above 255.
  A raised exception is a value; since the methods of \<^verbatim>\<open>Memory\<close> mutate the object
  in place, an outcome carries the object as the exception leaves it behind.
\<close>

subsection \<open>Exceptions and outcomes\<close>

datatype error =
    EmptyProgram
  | UnmatchedClosingBracket int
  | UnmatchedOpeningBracket int
  | UnknownInstruction char
  | IndexError
  | TypeError
  | ValueError
  | EOFError

datatype 'a outcome = Returns 'a | Raises error 'a

fun after :: "'a outcome \<Rightarrow> 'a" where
  "after (Returns s) = s"
| "after (Raises e s) = s"

type_synonym unicode = "nat list"

text \<open>
  Subscripting a Python list: an index from \<open>0\<close> to \<open>len - 1\<close> is a position, an index
  from \<open>-len\<close> to \<open>-1\<close> counts from the end, anything else raises IndexError (\<open>None\<close>).
\<close>

definition py_index :: "'a list \<Rightarrow> int \<Rightarrow> nat option" where
  "py_index xs i =
     (if 0 \<le> i \<and> i < int (length xs) then Some (nat i)
      else if i < 0 \<and> - int (length xs) \<le> i then Some (nat (int (length xs) + i))
      else None)"

text \<open>\<^verbatim>\<open>ord\<close>, \<^verbatim>\<open>chr\<close> and \<^verbatim>\<open>str\<close> of an integer.\<close>

definition ord :: "nat \<Rightarrow> int" where
  "ord c = int c"

definition chr :: "int \<Rightarrow> error + nat" where
  "chr i = (if 0 \<le> i \<and> i < 0x110000 then Inr (nat i) else Inl ValueError)"

fun digits :: "nat \<Rightarrow> unicode" where
  "digits n = (if n < 10 then [48 + n] else digits (n div 10) @ [48 + n mod 10])"

definition str_int :: "int \<Rightarrow> unicode" where
  "str_int i = (if i < 0 then 45 # digits (nat (- i)) else digits (nat i))"

subsection \<open>The tape: class Memory\<close>

record Memory =
  cells :: "int list"
  pointer :: int
  "value" :: int

definition Memory_init :: "int \<Rightarrow> Memory" where
  "Memory_init size' = \<lparr>cells = replicate (nat size') 0, pointer = 0, value = 0\<rparr>"

definition setCellTo :: "int \<Rightarrow> Memory \<Rightarrow> Memory outcome" where
  "setCellTo v m =
     (case py_index (cells m) (pointer m) of
        None \<Rightarrow> Raises IndexError m
      | Some k \<Rightarrow>
          (let m1 = m\<lparr>cells := (cells m)[k := max v 0]\<rparr>
           in Returns (m1\<lparr>value := cells m1 ! k\<rparr>)))"

definition setPointerTo :: "int \<Rightarrow> Memory \<Rightarrow> Memory outcome" where
  "setPointerTo cell m =
     (let m1 = m\<lparr>pointer := max cell 0\<rparr>
      in case py_index (cells m1) (pointer m1) of
           None \<Rightarrow> Raises IndexError m1
         | Some k \<Rightarrow> Returns (m1\<lparr>value := cells m1 ! k\<rparr>))"

definition setPointer :: "int \<Rightarrow> Memory \<Rightarrow> Memory outcome" where
  "setPointer increment m = setPointerTo (pointer m + increment) m"

definition setValue :: "int \<Rightarrow> Memory \<Rightarrow> Memory outcome" where
  "setValue increment m =
     (case py_index (cells m) (pointer m) of
        None \<Rightarrow> Raises IndexError m
      | Some k \<Rightarrow> setCellTo (cells m ! k + increment) m)"

text \<open>
  \<^verbatim>\<open>print\<close> leaves the object alone and appends to the text written so far: the decimal
  numeral of a value up to 9, the character \<^verbatim>\<open>chr(value)\<close> otherwise, which raises
  ValueError beyond the last code point. The text written is a sequence of code points;
  how the terminal encodes it is outside the model.
\<close>

definition print :: "Memory \<Rightarrow> unicode \<Rightarrow> unicode outcome" where
  "print m out =
     (let output = value m
      in if output > 9
         then (case chr output of
                 Inl e \<Rightarrow> Raises e out
               | Inr c \<Rightarrow> Returns (out @ [c]))
         else Returns (out @ str_int output))"

text \<open>
  \<^verbatim>\<open>read\<close> takes the next line of the input (EOFError when there is none). On an
  empty line the source rebinds \<^verbatim>\<open>inputValue\<close> to the integer 0 and then subscripts
  it, \<^verbatim>\<open>inputValue[0]\<close>, which raises TypeError before any cell is written.
\<close>

definition read :: "Memory \<Rightarrow> unicode list \<Rightarrow> (Memory \<times> unicode list) outcome" where
  "read m inp =
     (case inp of
        [] \<Rightarrow> Raises EOFError (m, inp)
      | inputValue # rest \<Rightarrow>
          if length inputValue = 0 then Raises TypeError (m, rest)
          else (case setCellTo (ord (inputValue ! 0)) m of
                  Raises e m' \<Rightarrow> Raises e (m', rest)
                | Returns m' \<Rightarrow> Returns (m', rest)))"

subsection \<open>Depth analysis: getNestingLevels\<close>

text \<open>
  The \<^verbatim>\<open>for\<close> loop of \<^verbatim>\<open>getNestingLevels\<close> over \<^verbatim>\<open>range(0, len(text))\<close>, as a
  recursion over the list of indices. The loop state is the running depth, the position
  of the last opening bracket and the result vector, which is written by index.
\<close>

fun getNestingLevels_loop ::
  "string \<Rightarrow> char \<Rightarrow> char \<Rightarrow> nat list \<Rightarrow> int \<times> int \<times> int list \<Rightarrow> error + int \<times> int \<times> int list"
where
  "getNestingLevels_loop text opening closing [] st = Inr st"
| "getNestingLevels_loop text opening closing (i # rest) (depth, lastopen, depths) =
     (let c = text ! i;
          lastopen = (if c = opening then int i else lastopen);
          depth = (if c = opening then depth + 1 else depth);
          depth = (if c = closing then depth - 1 else depth)
      in if depth < 0 then Inl (UnmatchedClosingBracket (int i))
         else getNestingLevels_loop text opening closing rest
                (depth, lastopen, depths[i := depth]))"

definition getNestingLevels :: "string \<Rightarrow> char \<Rightarrow> char \<Rightarrow> error + int list" where
  "getNestingLevels text opening closing =
     (if length text = 0 then Inl EmptyProgram
      else case getNestingLevels_loop text opening closing [0..<length text]
                  (0, - 1, replicate (length text) 0) of
             Inl e \<Rightarrow> Inl e
           | Inr (depth, lastopen, depths) \<Rightarrow>
               if depth > 0 then Inl (UnmatchedOpeningBracket lastopen) else Inr depths)"

subsection \<open>Jump resolution: findLevelClosing and findLevelOpening\<close>

text \<open>
  Both functions read \<^verbatim>\<open>levels[i]\<close> first (IndexError past the end), slice the list
  and run a \<^verbatim>\<open>for\<close> loop that returns at the first hit: \<^verbatim>\<open>range(1, len(forward))\<close>
  is \<open>[1..<length forward]\<close>, and \<^verbatim>\<open>range(len(backward) - 1, 0, -1)\<close> is the same
  range of \<open>backward\<close> walked downwards, so index 0 is never looked at.
\<close>

definition findLevelClosing :: "int list \<Rightarrow> nat \<Rightarrow> error + nat" where
  "findLevelClosing levels i =
     (if length levels \<le> i then Inl IndexError
      else let level = levels ! i; forward = drop i levels
           in case find (\<lambda>f. forward ! f < level) [1..<length forward] of
                Some f \<Rightarrow> Inr (i + f + 1)
              | None \<Rightarrow> Inl (UnmatchedOpeningBracket (int i)))"

definition findLevelOpening :: "int list \<Rightarrow> nat \<Rightarrow> error + nat" where
  "findLevelOpening levels i =
     (if length levels \<le> i then Inl IndexError
      else let level = levels ! i; backward = take i levels
           in case find (\<lambda>f. backward ! f = level) (rev [1..<length backward]) of
                Some f \<Rightarrow> Inr (f + 2)
              | None \<Rightarrow> Inl (UnmatchedClosingBracket (int i)))"

subsection \<open>The dispatch loop: brainfuck\<close>

text \<open>
  A configuration is the instruction pointer \<^verbatim>\<open>i\<close>, the tape, the lines still to be
  read and the text written so far. \<open>dispatch\<close> is one pass through the body of the
  \<^verbatim>\<open>while\<close> loop; \<open>tape_call\<close> is a branch that calls a method of the tape and then
  falls through to \<^verbatim>\<open>i += 1\<close>. The loop need not end, so \<open>loop\<close> counts its passes
  down from a bound and answers \<open>None\<close> when the bound is used up.

  The model starts from \<^verbatim>\<open>script\<close>: looking \<^verbatim>\<open>text\<close> up as a file name belongs to
  the file system and is left to the caller.
\<close>

record config =
  ip :: nat
  mem :: Memory
  stdin :: "unicode list"
  stdout :: unicode

definition tape_call :: "(Memory \<Rightarrow> Memory outcome) \<Rightarrow> config \<Rightarrow> config outcome" where
  "tape_call f s =
     (case f (mem s) of
        Raises e m \<Rightarrow> Raises e (s\<lparr>mem := m\<rparr>)
      | Returns m \<Rightarrow> Returns (s\<lparr>mem := m, ip := ip s + 1\<rparr>))"

definition dispatch :: "string \<Rightarrow> int list \<Rightarrow> config \<Rightarrow> config outcome" where
  "dispatch script levels s =
     (let i = ip s in
      if length levels \<le> i then Raises IndexError s
      else
        let c = script ! i in
        if c = CHR ''+'' then tape_call (setValue 1) s
        else if c = CHR ''-'' then tape_call (setValue (- 1)) s
        else if c = CHR ''>'' then tape_call (setPointer 1) s
        else if c = CHR ''<'' then tape_call (setPointer (- 1)) s
        else if c = CHR ''.'' then
          (case print (mem s) (stdout s) of
             Raises e out \<Rightarrow> Raises e (s\<lparr>stdout := out\<rparr>)
           | Returns out \<Rightarrow> Returns (s\<lparr>stdout := out, ip := i + 1\<rparr>))
        else if c = CHR '','' then
          (case read (mem s) (stdin s) of
             Raises e (m, inp) \<Rightarrow> Raises e (s\<lparr>mem := m, stdin := inp\<rparr>)
           | Returns (m, inp) \<Rightarrow> Returns (s\<lparr>mem := m, stdin := inp, ip := i + 1\<rparr>))
        else if c = CHR ''['' then
          (if value (mem s) = 0
           then (case findLevelClosing levels i of
                   Inl e \<Rightarrow> Raises e s
                 | Inr j \<Rightarrow> Returns (s\<lparr>ip := j\<rparr>))
           else Returns (s\<lparr>ip := i + 1\<rparr>))
        else if c = CHR '']'' then
          (if value (mem s) \<noteq> 0
           then (case findLevelOpening levels i of
                   Inl e \<Rightarrow> Raises e s
                 | Inr j \<Rightarrow> Returns (s\<lparr>ip := j\<rparr>))
           else Returns (s\<lparr>ip := i + 1\<rparr>))
        else Raises (UnknownInstruction c) s)"

fun loop :: "nat \<Rightarrow> string \<Rightarrow> int list \<Rightarrow> config \<Rightarrow> config outcome option" where
  "loop 0 script levels s =
     (if ip s < length script then None else Some (Returns s))"
| "loop (Suc fuel) script levels s =
     (if ip s < length script
      then (case dispatch script levels s of
              Raises e s' \<Rightarrow> Some (Raises e s')
            | Returns s' \<Rightarrow> loop fuel script levels s')
      else Some (Returns s))"

definition brainfuck ::
  "nat \<Rightarrow> string \<Rightarrow> Memory option \<Rightarrow> int \<Rightarrow> unicode list \<Rightarrow> config outcome option"
where
  "brainfuck fuel text memory memsize inp =
     (let mem = (case memory of None \<Rightarrow> Memory_init memsize | Some m \<Rightarrow> m);
          script = text;
          s = \<lparr>ip = 0, mem = mem, stdin = inp, stdout = []\<rparr>
      in case getNestingLevels script CHR ''['' CHR '']'' of
           Inl e \<Rightarrow> Some (Raises e s)
         | Inr levels \<Rightarrow> loop fuel script levels s)"

subsection \<open>Reference notions for the statements\<close>

text \<open>
  Sequences of calls on a tape, as a caller makes them; a call that raises leaves the
  object as it is at that moment, and the next call goes on from there.
\<close>

datatype call = SetValue int | SetCellTo int | SetPointer int

fun apply_call :: "call \<Rightarrow> Memory \<Rightarrow> Memory outcome" where
  "apply_call (SetValue d) m = setValue d m"
| "apply_call (SetCellTo v) m = setCellTo v m"
| "apply_call (SetPointer d) m = setPointer d m"

definition apply_calls :: "call list \<Rightarrow> Memory \<Rightarrow> Memory" where
  "apply_calls cs m = foldl (\<lambda>m c. after (apply_call c m)) m cs"

text \<open>
  The cached field agrees with the tape: \<^verbatim>\<open>cells[pointer]\<close> exists and \<^verbatim>\<open>value\<close>
  equals it.
\<close>

definition cached :: "Memory \<Rightarrow> bool" where
  "cached m \<longleftrightarrow>
     (case py_index (cells m) (pointer m) of None \<Rightarrow> False | Some k \<Rightarrow> value m = cells m ! k)"

text \<open>
  Bracket structure, independently of the analyser. \<open>prefix_depth text k\<close> is the number
  of opening brackets minus the number of closing brackets among the first \<open>k\<close>
  characters; a text is balanced when no prefix closes more than it opens and the whole
  text closes all it opens. \<open>open_stack text k\<close> is the stack of the positions of the
  opening brackets that are still unmatched after the first \<open>k\<close> characters, innermost
  first: these are the brackets that enclose what follows. The opening bracket matching a
  closing bracket at \<open>c\<close> is the top of the stack when \<open>c\<close> is reached (\<open>None\<close> when
  the stack is empty there, which no balanced text allows).
\<close>

definition prefix_depth :: "string \<Rightarrow> nat \<Rightarrow> int" where
  "prefix_depth text k =
     int (count_list (take k text) CHR ''['') - int (count_list (take k text) CHR '']'')"

definition balanced :: "string \<Rightarrow> bool" where
  "balanced text \<longleftrightarrow>
     list_all (\<lambda>k. 0 \<le> prefix_depth text k) [0..<Suc (length text)]
     \<and> prefix_depth text (length text) = 0"

fun open_stack :: "string \<Rightarrow> nat \<Rightarrow> nat list" where
  "open_stack text 0 = []"
| "open_stack text (Suc k) =
     (let st = open_stack text k
      in if text ! k = CHR ''['' then k # st
         else if text ! k = CHR '']'' then tl st
         else st)"

definition matching_open :: "string \<Rightarrow> nat \<Rightarrow> nat option" where
  "matching_open text c = (case open_stack text c of [] \<Rightarrow> None | opn # _ \<Rightarrow> Some opn)"

text \<open>
  \<open>nested text k st\<close> is the invariant of the stack after \<open>k\<close> characters: each entry
  is an opening bracket read at the depth given by the entries below it, and everything
  read since lies deeper.
\<close>

fun nested :: "string \<Rightarrow> nat \<Rightarrow> nat list \<Rightarrow> bool" where
  "nested text k [] = True"
| "nested text k (opn # st) =
     (opn < k \<and> text ! opn = CHR ''['' \<and> prefix_depth text opn = int (length st)
      \<and> (\<forall>p. opn < p \<and> p \<le> k \<longrightarrow> int (length st) < prefix_depth text p)
      \<and> nested text opn st)"

text \<open>
  \<open>runs_to script levels s s'\<close>: the dispatch loop, started in \<open>s\<close>, completes some
  number of instructions and stands in \<open>s'\<close>.
\<close>

inductive runs_to :: "string \<Rightarrow> int list \<Rightarrow> config \<Rightarrow> config \<Rightarrow> bool"
  for script levels
where
  here: "runs_to script levels s s"
| pass: "ip s < length script \<Longrightarrow> dispatch script levels s = Returns s1 \<Longrightarrow>
         runs_to script levels s1 s2 \<Longrightarrow> runs_to script levels s s2"

code_pred runs_to .

section \<open>Properties of the tape\<close>

lemma py_index_inside: "0 \<le> i \<Longrightarrow> i < int (length xs) \<Longrightarrow> py_index xs i = Some (nat i)"
  by (simp add: py_index_def)

lemma py_index_beyond: "int (length xs) \<le> i \<Longrightarrow> py_index xs i = None"
  by (simp add: py_index_def Let_def)

lemma py_index_less: "py_index xs i = Some k \<Longrightarrow> k < length xs"
  by (auto simp: py_index_def Let_def split: if_splits)

lemma setCellTo_nonneg:
  "\<forall>v\<in>set (cells m). 0 \<le> v \<Longrightarrow> \<forall>v\<in>set (cells (after (setCellTo x m))). 0 \<le> v"
  by (auto simp: setCellTo_def Let_def split: option.splits dest!: set_update_subset_insert [THEN subsetD])

lemma setCellTo_pointer: "pointer (after (setCellTo x m)) = pointer m"
  by (simp add: setCellTo_def Let_def split: option.splits)

lemma setValue_nonneg:
  "\<forall>v\<in>set (cells m). 0 \<le> v \<Longrightarrow> \<forall>v\<in>set (cells (after (setValue d m))). 0 \<le> v"
  using setCellTo_nonneg by (simp add: setValue_def split: option.splits)

lemma setValue_pointer: "pointer (after (setValue d m)) = pointer m"
  by (simp add: setValue_def setCellTo_pointer split: option.splits)

lemma setPointer_cells: "cells (after (setPointer d m)) = cells m"
  by (simp add: setPointer_def setPointerTo_def Let_def split: option.splits)

lemma setPointer_pointer: "pointer (after (setPointer d m)) = max (pointer m + d) 0"
  by (simp add: setPointer_def setPointerTo_def Let_def split: option.splits)

lemma apply_call_invariant:
  assumes "\<forall>v\<in>set (cells m). 0 \<le> v" and "0 \<le> pointer m"
  shows "(\<forall>v\<in>set (cells (after (apply_call c m))). 0 \<le> v) \<and> 0 \<le> pointer (after (apply_call c m))"
proof (cases c)
  case (SetValue d)
  with assms show ?thesis using setValue_nonneg [of m d] by (simp add: setValue_pointer)
next
  case (SetCellTo x)
  with assms show ?thesis using setCellTo_nonneg [of m x] by (simp add: setCellTo_pointer)
next
  case (SetPointer d)
  with assms show ?thesis by (simp add: setPointer_cells setPointer_pointer)
qed

lemma apply_calls_invariant:
  "\<forall>v\<in>set (cells m). 0 \<le> v \<Longrightarrow> 0 \<le> pointer m \<Longrightarrow>
   (\<forall>v\<in>set (cells (apply_calls cs m)). 0 \<le> v) \<and> 0 \<le> pointer (apply_calls cs m)"
proof (induction cs arbitrary: m)
  case Nil
  then show ?case by (simp add: apply_calls_def)
next
  case (Cons c cs)
  from apply_call_invariant [OF Cons.prems, of c]
  have "(\<forall>v\<in>set (cells (apply_calls cs (after (apply_call c m)))). 0 \<le> v)
        \<and> 0 \<le> pointer (apply_calls cs (after (apply_call c m)))"
    by (intro Cons.IH) auto
  then show ?case by (simp add: apply_calls_def)
qed

lemma py_index_update [simp]: "py_index (xs[k := v]) i = py_index xs i"
  by (simp add: py_index_def)

lemma setCellTo_cached:
  "py_index (cells m) (pointer m) = Some k \<Longrightarrow>
   \<exists>m'. setCellTo x m = Returns m' \<and> cached m' \<and> pointer m' = pointer m
        \<and> length (cells m') = length (cells m)"
  by (simp add: setCellTo_def Let_def cached_def)

lemma setValue_cached:
  "py_index (cells m) (pointer m) = Some k \<Longrightarrow>
   \<exists>m'. setValue d m = Returns m' \<and> cached m' \<and> pointer m' = pointer m
        \<and> length (cells m') = length (cells m)"
  using setCellTo_cached [of m k] by (simp add: setValue_def)

lemma setPointerTo_cached:
  "case setPointerTo c m of
     Returns m' \<Rightarrow> cached m'
   | Raises e m' \<Rightarrow> py_index (cells m') (pointer m') = None"
  by (simp add: setPointerTo_def Let_def cached_def split: option.splits)

lemma read_cached:
  "py_index (cells m) (pointer m) = Some k \<Longrightarrow>
   case read m inp of
     Returns (m', rest) \<Rightarrow> cached m'
   | Raises e (m', rest) \<Rightarrow> m' = m"
  using setCellTo_cached [of m k "ord (hd (hd inp))"]
  by (auto simp: read_def hd_conv_nth split: list.splits)


section \<open>Properties of the depth analysis\<close>

lemma prefix_depth_0 [simp]: "prefix_depth text 0 = 0"
  by (simp add: prefix_depth_def)

lemma prefix_depth_Suc:
  "k < length text \<Longrightarrow>
   prefix_depth text (Suc k) =
     prefix_depth text k + (if text ! k = CHR ''['' then 1 else 0)
                         - (if text ! k = CHR '']'' then 1 else 0)"
  by (simp add: prefix_depth_def take_Suc_conv_app_nth)

lemma loop_step:
  assumes "k < n" and "n \<le> length text"
  shows "getNestingLevels_loop text CHR ''['' CHR '']'' [k..<n] (prefix_depth text k, lo, ds) =
           (if prefix_depth text (Suc k) < 0 then Inl (UnmatchedClosingBracket (int k))
            else getNestingLevels_loop text CHR ''['' CHR '']'' [Suc k..<n]
                   (prefix_depth text (Suc k),
                    if text ! k = CHR ''['' then int k else lo,
                    ds[k := prefix_depth text (Suc k)]))"
proof -
  from assms have "k < length text" by simp
  then show ?thesis
    using assms(1) by (simp add: upt_conv_Cons prefix_depth_Suc Let_def)
qed

lemma loop_Inr:
  assumes "k \<le> n" and "n \<le> length text"
    and "getNestingLevels_loop text CHR ''['' CHR '']'' [k..<n] (prefix_depth text k, lo, ds)
           = Inr (d', lo', ds')"
  shows "d' = prefix_depth text n \<and> length ds' = length ds
       \<and> (\<forall>p<k. ds' ! p = ds ! p)
       \<and> (\<forall>p. k \<le> p \<and> p < n \<and> p < length ds \<longrightarrow> ds' ! p = prefix_depth text (Suc p))
       \<and> (\<forall>p. k \<le> p \<and> p < n \<longrightarrow> 0 \<le> prefix_depth text (Suc p))"
  using assms
proof (induction k arbitrary: lo ds rule: inc_induct)
  case base
  then show ?case by simp
next
  case (step k)
  let ?d = "prefix_depth text (Suc k)"
  let ?lo = "if text ! k = CHR ''['' then int k else lo"
  from step.prems step.hyps have nonneg: "\<not> ?d < 0"
    and run: "getNestingLevels_loop text CHR ''['' CHR '']'' [Suc k..<n] (?d, ?lo, ds[k := ?d])
                = Inr (d', lo', ds')"
    by (auto simp: loop_step split: if_splits)
  from step.IH [OF step.prems(1) run]
  have ih: "d' = prefix_depth text n" "length ds' = length ds"
    "\<forall>p<Suc k. ds' ! p = ds[k := ?d] ! p"
    "\<forall>p. Suc k \<le> p \<and> p < n \<and> p < length ds \<longrightarrow> ds' ! p = prefix_depth text (Suc p)"
    "\<forall>p. Suc k \<le> p \<and> p < n \<longrightarrow> 0 \<le> prefix_depth text (Suc p)"
    by simp_all
  have a: "\<forall>p<k. ds' ! p = ds ! p"
    using ih(3) by auto
  have b: "\<forall>p. k \<le> p \<and> p < n \<and> p < length ds \<longrightarrow> ds' ! p = prefix_depth text (Suc p)"
  proof (intro allI impI)
    fix p assume p: "k \<le> p \<and> p < n \<and> p < length ds"
    show "ds' ! p = prefix_depth text (Suc p)"
    proof (cases "p = k")
      case True
      with p ih(3) show ?thesis by simp
    next
      case False
      with p ih(4) show ?thesis by simp
    qed
  qed
  have c: "\<forall>p. k \<le> p \<and> p < n \<longrightarrow> 0 \<le> prefix_depth text (Suc p)"
  proof (intro allI impI)
    fix p assume p: "k \<le> p \<and> p < n"
    show "0 \<le> prefix_depth text (Suc p)"
    proof (cases "p = k")
      case True
      with nonneg show ?thesis by simp
    next
      case False
      with p ih(5) show ?thesis by simp
    qed
  qed
  from ih(1,2) a b c show ?case by blast
qed

lemma loop_lastopen:
  assumes "k \<le> n" and "n \<le> length text"
    and "getNestingLevels_loop text CHR ''['' CHR '']'' [k..<n] (prefix_depth text k, lo, ds)
           = Inr (d', lo', ds')"
  shows "(lo' = lo \<and> (\<forall>p. k \<le> p \<and> p < n \<longrightarrow> text ! p \<noteq> CHR ''[''))
       \<or> (\<exists>p. k \<le> p \<and> p < n \<and> lo' = int p \<and> text ! p = CHR ''[''
              \<and> (\<forall>q. p < q \<and> q < n \<longrightarrow> text ! q \<noteq> CHR ''[''))"
  using assms
proof (induction k arbitrary: lo ds rule: inc_induct)
  case base
  then show ?case by auto
next
  case (step k)
  let ?d = "prefix_depth text (Suc k)"
  let ?lo = "if text ! k = CHR ''['' then int k else lo"
  from step.prems step.hyps
  have run: "getNestingLevels_loop text CHR ''['' CHR '']'' [Suc k..<n] (?d, ?lo, ds[k := ?d])
                = Inr (d', lo', ds')"
    by (auto simp: loop_step split: if_splits)
  from step.IH [OF step.prems(1) run]
  consider (none) "lo' = ?lo" "\<forall>p. Suc k \<le> p \<and> p < n \<longrightarrow> text ! p \<noteq> CHR ''[''"
    | (some) p where "Suc k \<le> p" "p < n" "lo' = int p" "text ! p = CHR ''[''"
        "\<forall>q. p < q \<and> q < n \<longrightarrow> text ! q \<noteq> CHR ''[''"
    by blast
  then show ?case
  proof cases
    case none
    show ?thesis
    proof (cases "text ! k = CHR ''[''")
      case True
      with none step.hyps have "k \<le> k \<and> k < n \<and> lo' = int k \<and> text ! k = CHR ''[''
          \<and> (\<forall>q. k < q \<and> q < n \<longrightarrow> text ! q \<noteq> CHR ''['')"
        by (simp add: Suc_le_eq)
      then show ?thesis by blast
    next
      case False
      with none have "lo' = lo \<and> (\<forall>p. k \<le> p \<and> p < n \<longrightarrow> text ! p \<noteq> CHR ''['')"
        by (metis Suc_leI le_neq_implies_less)
      then show ?thesis by blast
    qed
  next
    case some
    then have "k \<le> p \<and> p < n \<and> lo' = int p \<and> text ! p = CHR ''[''
          \<and> (\<forall>q. p < q \<and> q < n \<longrightarrow> text ! q \<noteq> CHR ''['')"
      by simp
    then show ?thesis by blast
  qed
qed

lemma loop_Inl:
  assumes "k \<le> n" and "n \<le> length text"
    and "getNestingLevels_loop text CHR ''['' CHR '']'' [k..<n] (prefix_depth text k, lo, ds)
           = Inl e"
  shows "\<exists>p. k \<le> p \<and> p < n \<and> e = UnmatchedClosingBracket (int p)
           \<and> prefix_depth text (Suc p) < 0
           \<and> (\<forall>q. k \<le> q \<and> q < p \<longrightarrow> 0 \<le> prefix_depth text (Suc q))"
  using assms
proof (induction k arbitrary: lo ds rule: inc_induct)
  case base
  then show ?case by simp
next
  case (step k)
  let ?d = "prefix_depth text (Suc k)"
  let ?lo = "if text ! k = CHR ''['' then int k else lo"
  show ?case
  proof (cases "?d < 0")
    case True
    with step.prems step.hyps have "e = UnmatchedClosingBracket (int k)"
      by (simp add: loop_step)
    with True step.hyps have "k \<le> k \<and> k < n \<and> e = UnmatchedClosingBracket (int k)
           \<and> prefix_depth text (Suc k) < 0
           \<and> (\<forall>q. k \<le> q \<and> q < k \<longrightarrow> 0 \<le> prefix_depth text (Suc q))"
      by simp
    then show ?thesis by blast
  next
    case False
    with step.prems step.hyps
    have run: "getNestingLevels_loop text CHR ''['' CHR '']'' [Suc k..<n] (?d, ?lo, ds[k := ?d])
                = Inl e"
      by (simp add: loop_step)
    from step.IH [OF step.prems(1) run] obtain p where p: "Suc k \<le> p" "p < n"
      "e = UnmatchedClosingBracket (int p)" "prefix_depth text (Suc p) < 0"
      "\<forall>q. Suc k \<le> q \<and> q < p \<longrightarrow> 0 \<le> prefix_depth text (Suc q)"
      by blast
    have "\<forall>q. k \<le> q \<and> q < p \<longrightarrow> 0 \<le> prefix_depth text (Suc q)"
    proof (intro allI impI)
      fix q assume q: "k \<le> q \<and> q < p"
      show "0 \<le> prefix_depth text (Suc q)"
      proof (cases "q = k")
        case True
        with False show ?thesis by simp
      next
        case False
        with q p(5) show ?thesis by simp
      qed
    qed
    with p have "k \<le> p \<and> p < n \<and> e = UnmatchedClosingBracket (int p)
           \<and> prefix_depth text (Suc p) < 0
           \<and> (\<forall>q. k \<le> q \<and> q < p \<longrightarrow> 0 \<le> prefix_depth text (Suc q))"
      by simp
    then show ?thesis by blast
  qed
qed


lemma loop_total:
  assumes "k \<le> n" and "n \<le> length text"
    and "\<forall>p. k \<le> p \<and> p < n \<longrightarrow> 0 \<le> prefix_depth text (Suc p)"
  shows "\<exists>r. getNestingLevels_loop text CHR ''['' CHR '']'' [k..<n] (prefix_depth text k, lo, ds)
           = Inr r"
proof (cases "getNestingLevels_loop text CHR ''['' CHR '']'' [k..<n] (prefix_depth text k, lo, ds)")
  case (Inl e)
  from loop_Inl [OF assms(1,2) Inl] assms(3) show ?thesis by force
next
  case (Inr r)
  then show ?thesis by blast
qed

lemma getNestingLevels_Inr:
  assumes "getNestingLevels text CHR ''['' CHR '']'' = Inr depths"
  shows "text \<noteq> [] \<and> length depths = length text
       \<and> (\<forall>p<length text. depths ! p = prefix_depth text (Suc p))
       \<and> (\<forall>p\<le>length text. 0 \<le> prefix_depth text p)
       \<and> prefix_depth text (length text) = 0"
proof -
  let ?n = "length text"
  from assms have ne: "text \<noteq> []"
    by (auto simp: getNestingLevels_def)
  from assms ne obtain d lo where
    run: "getNestingLevels_loop text CHR ''['' CHR '']'' [0..<?n]
            (prefix_depth text 0, - 1, replicate ?n 0) = Inr (d, lo, depths)"
    and d: "\<not> 0 < d"
    by (auto simp: getNestingLevels_def split: sum.splits prod.splits if_splits)
  from loop_Inr [OF _ _ run]
  have r: "d = prefix_depth text ?n" "length depths = ?n"
    "\<forall>p. p < ?n \<longrightarrow> depths ! p = prefix_depth text (Suc p)"
    "\<forall>p. p < ?n \<longrightarrow> 0 \<le> prefix_depth text (Suc p)"
    by simp_all
  have nonneg: "\<forall>p\<le>?n. 0 \<le> prefix_depth text p"
  proof (intro allI impI)
    fix p assume "p \<le> ?n"
    then show "0 \<le> prefix_depth text p"
      using r(4) by (cases p) simp_all
  qed
  with d r(1) have "prefix_depth text ?n = 0" by force
  with ne r(2,3) nonneg show ?thesis by blast
qed

lemma balanced_iff:
  "balanced text \<longleftrightarrow>
     (\<forall>p\<le>length text. 0 \<le> prefix_depth text p) \<and> prefix_depth text (length text) = 0"
  by (auto simp: balanced_def list_all_iff less_Suc_eq_le)

lemma getNestingLevels_balanced:
  assumes "text \<noteq> []" and "balanced text"
  shows "\<exists>depths. getNestingLevels text CHR ''['' CHR '']'' = Inr depths"
proof -
  let ?n = "length text"
  from assms(2) have nonneg: "\<forall>p. 0 \<le> p \<and> p < ?n \<longrightarrow> 0 \<le> prefix_depth text (Suc p)"
    and zero: "prefix_depth text ?n = 0"
    by (simp_all add: balanced_iff)
  from loop_total [OF _ _ nonneg] obtain r where
    run: "getNestingLevels_loop text CHR ''['' CHR '']'' [0..<?n]
            (prefix_depth text 0, - 1, replicate ?n 0) = Inr r"
    by blast
  obtain d lo ds where r: "r = (d, lo, ds)" by (cases r)
  from loop_Inr [OF _ _ run [unfolded r]] zero have "d = 0" by simp
  with run r assms(1) show ?thesis
    by (simp add: getNestingLevels_def)
qed

lemma getNestingLevels_opening:
  assumes "getNestingLevels text CHR ''['' CHR '']'' = Inl (UnmatchedOpeningBracket pos)"
  shows "0 \<le> pos \<and> nat pos < length text \<and> text ! nat pos = CHR ''[''
       \<and> (\<forall>q. nat pos < q \<and> q < length text \<longrightarrow> text ! q \<noteq> CHR ''['')
       \<and> (\<forall>p\<le>length text. 0 \<le> prefix_depth text p)
       \<and> 0 < prefix_depth text (length text)"
proof -
  let ?n = "length text"
  from assms have ne: "text \<noteq> []"
    by (auto simp: getNestingLevels_def split: if_splits)
  have "getNestingLevels_loop text CHR ''['' CHR '']'' [0..<?n]
            (prefix_depth text 0, - 1, replicate ?n 0) \<noteq> Inl (UnmatchedOpeningBracket pos)"
    using loop_Inl [of 0 "length text" "text" "- 1" "replicate (length text) 0" "UnmatchedOpeningBracket pos"]
    by auto
  with assms ne obtain d ds where
    run: "getNestingLevels_loop text CHR ''['' CHR '']'' [0..<?n]
            (prefix_depth text 0, - 1, replicate ?n 0) = Inr (d, pos, ds)"
    and d: "0 < d"
    by (auto simp: getNestingLevels_def split: sum.splits prod.splits if_splits)
  from loop_Inr [OF _ _ run]
  have r: "d = prefix_depth text ?n"
    "\<forall>p. p < ?n \<longrightarrow> 0 \<le> prefix_depth text (Suc p)"
    by simp_all
  have nonneg: "\<forall>p\<le>?n. 0 \<le> prefix_depth text p"
  proof (intro allI impI)
    fix p assume "p \<le> ?n"
    then show "0 \<le> prefix_depth text p"
      using r(2) by (cases p) simp_all
  qed
  have some_open: "\<exists>p<?n. text ! p = CHR ''[''"
  proof (rule ccontr)
    assume "\<not> (\<exists>p<?n. text ! p = CHR ''['')"
    then have "CHR ''['' \<notin> set text"
      by (auto simp: in_set_conv_nth)
    then have "count_list text CHR ''['' = 0" by simp
    then have "prefix_depth text ?n \<le> 0" by (simp add: prefix_depth_def)
    with d r(1) show False by simp
  qed
  from loop_lastopen [OF _ _ run] some_open
  obtain p where "p < ?n" "pos = int p" "text ! p = CHR ''[''"
    "\<forall>q. p < q \<and> q < ?n \<longrightarrow> text ! q \<noteq> CHR ''[''"
    by auto
  with nonneg d r(1) show ?thesis by simp
qed

lemma getNestingLevels_closing:
  assumes "getNestingLevels text CHR ''['' CHR '']'' = Inl (UnmatchedClosingBracket pos)"
  shows "0 \<le> pos \<and> nat pos < length text \<and> prefix_depth text (Suc (nat pos)) < 0
       \<and> (\<forall>q\<le>nat pos. 0 \<le> prefix_depth text q)"
proof -
  let ?n = "length text"
  from assms have ne: "text \<noteq> []"
    by (auto simp: getNestingLevels_def split: if_splits)
  from assms ne have
    run: "getNestingLevels_loop text CHR ''['' CHR '']'' [0..<?n]
            (prefix_depth text 0, - 1, replicate ?n 0) = Inl (UnmatchedClosingBracket pos)"
    by (auto simp: getNestingLevels_def split: sum.splits prod.splits if_splits)
  from loop_Inl [OF _ _ run] obtain p where p: "p < ?n" "pos = int p"
    "prefix_depth text (Suc p) < 0" "\<forall>q. q < p \<longrightarrow> 0 \<le> prefix_depth text (Suc q)"
    by auto
  have "\<forall>q\<le>p. 0 \<le> prefix_depth text q"
  proof (intro allI impI)
    fix q assume "q \<le> p"
    then show "0 \<le> prefix_depth text q"
      using p(4) by (cases q) simp_all
  qed
  with p show ?thesis by simp
qed

lemma open_stack_length:
  assumes "k \<le> length text" and "\<forall>j\<le>k. 0 \<le> prefix_depth text j"
  shows "int (length (open_stack text k)) = prefix_depth text k"
  using assms
proof (induction k)
  case 0
  then show ?case by simp
next
  case (Suc k)
  then have ih: "int (length (open_stack text k)) = prefix_depth text k"
    and k: "k < length text" and nn: "0 \<le> prefix_depth text (Suc k)"
    by simp_all
  from nn ih k show ?case
    by (auto simp: prefix_depth_Suc Let_def split: if_splits)
qed

section \<open>Properties of the jump resolution\<close>

lemma find_rev_upt_Some:
  assumes "a \<le> x" and "x < b" and "P x" and "\<forall>y. x < y \<and> y < b \<longrightarrow> \<not> P y"
  shows "find P (rev [a..<b]) = Some x"
  using assms
proof (induction b)
  case 0
  then show ?case by simp
next
  case (Suc b)
  show ?case
  proof (cases "x = b")
    case True
    with Suc.prems show ?thesis by simp
  next
    case False
    with Suc.prems have "x < b" and "\<not> P b" by simp_all
    moreover from Suc.prems \<open>x < b\<close> have "find P (rev [a..<b]) = Some x"
      by (intro Suc.IH) simp_all
    ultimately show ?thesis using Suc.prems by simp
  qed
qed

lemma find_rev_upt_None:
  "(\<forall>y. a \<le> y \<and> y < b \<longrightarrow> \<not> P y) \<Longrightarrow> find P (rev [a..<b]) = None"
  by (simp add: find_None_iff)

lemma nested_extend:
  assumes "nested text k st" and "k \<le> k'"
    and "\<forall>p. k < p \<and> p \<le> k' \<longrightarrow> int (length st) \<le> prefix_depth text p"
  shows "nested text k' st"
proof (cases st)
  case Nil
  then show ?thesis by simp
next
  case (Cons opn st0)
  have "int (length st0) < prefix_depth text p" if "opn < p \<and> p \<le> k'" for p
  proof (cases "p \<le> k")
    case True
    with that assms(1) Cons show ?thesis by simp
  next
    case False
    with that have "k < p \<and> p \<le> k'" by simp
    with assms(3) have "int (length st) \<le> prefix_depth text p" by blast
    with Cons show ?thesis by simp
  qed
  with assms(1,2) Cons show ?thesis by simp
qed

lemma open_stack_nested:
  assumes "k \<le> length text" and "\<forall>j\<le>k. 0 \<le> prefix_depth text j"
  shows "nested text k (open_stack text k)"
  using assms
proof (induction k)
  case 0
  then show ?case by simp
next
  case (Suc k)
  let ?st = "open_stack text k"
  from Suc have ih: "nested text k ?st" and k: "k < length text" by simp_all
  from Suc.prems have len: "int (length ?st) = prefix_depth text k"
    by (intro open_stack_length) simp_all
  from Suc.prems have len': "int (length (open_stack text (Suc k))) = prefix_depth text (Suc k)"
    by (intro open_stack_length) simp_all
  consider (push) "text ! k = CHR ''[''"
    | (pop) "text ! k = CHR '']''"
    | (other) "text ! k \<noteq> CHR ''[''" "text ! k \<noteq> CHR '']''"
    by blast
  then show ?case
  proof cases
    case push
    have "\<forall>p. k < p \<and> p \<le> Suc k \<longrightarrow> int (length ?st) < prefix_depth text p"
    proof (intro allI impI)
      fix p assume "k < p \<and> p \<le> Suc k"
      then have "p = Suc k" by simp
      with push k len show "int (length ?st) < prefix_depth text p"
        by (simp add: prefix_depth_Suc)
    qed
    with push ih len show ?thesis by simp
  next
    case pop
    from Suc.prems(2) have "0 \<le> prefix_depth text (Suc k)" by simp
    with pop k len have "0 < int (length ?st)" by (simp add: prefix_depth_Suc)
    then have "?st \<noteq> []" by auto
    then obtain opn st0 where st: "?st = opn # st0" by (cases ?st) simp_all
    from ih st have opn: "opn < k" and inner: "nested text opn st0"
      and above: "\<forall>p. opn < p \<and> p \<le> k \<longrightarrow> int (length st0) < prefix_depth text p"
      by simp_all
    have "\<forall>p. opn < p \<and> p \<le> Suc k \<longrightarrow> int (length st0) \<le> prefix_depth text p"
    proof (intro allI impI)
      fix p assume p: "opn < p \<and> p \<le> Suc k"
      show "int (length st0) \<le> prefix_depth text p"
      proof (cases "p = Suc k")
        case True
        with pop k len st show ?thesis by (simp add: prefix_depth_Suc)
      next
        case False
        with p above show ?thesis by force
      qed
    qed
    with inner opn have "nested text (Suc k) st0"
      by (intro nested_extend [of "text" opn st0 "Suc k"]) simp_all
    with pop st show ?thesis by simp
  next
    case other
    with k len have "\<forall>p. k < p \<and> p \<le> Suc k \<longrightarrow> int (length ?st) \<le> prefix_depth text p"
      by (auto simp: prefix_depth_Suc le_Suc_eq)
    with ih have "nested text (Suc k) ?st"
      by (intro nested_extend [of "text" k ?st "Suc k"]) simp_all
    with other show ?thesis by simp
  qed
qed

lemma matching_open_closing:
  assumes "i < length text" and "text ! i = CHR '']''"
    and "\<forall>j\<le>Suc i. 0 \<le> prefix_depth text j"
  shows "\<exists>opn. matching_open text i = Some opn \<and> opn < i \<and> text ! opn = CHR ''[''
           \<and> prefix_depth text opn = prefix_depth text (Suc i)
           \<and> (\<forall>p. opn < p \<and> p \<le> i \<longrightarrow> prefix_depth text (Suc i) < prefix_depth text p)"
proof -
  let ?st = "open_stack text i"
  from assms have len: "int (length ?st) = prefix_depth text i"
    by (intro open_stack_length) simp_all
  from assms have next_depth: "prefix_depth text (Suc i) = prefix_depth text i - 1"
    by (simp add: prefix_depth_Suc)
  from assms(3) have "0 \<le> prefix_depth text (Suc i)" by simp
  with len next_depth have "0 < int (length ?st)" by simp
  then have "?st \<noteq> []" by auto
  then obtain opn st0 where st: "?st = opn # st0" by (cases ?st) simp_all
  from assms have "nested text i ?st"
    by (intro open_stack_nested) simp_all
  with st have "opn < i" "text ! opn = CHR ''[''" "prefix_depth text opn = int (length st0)"
    "\<forall>p. opn < p \<and> p \<le> i \<longrightarrow> int (length st0) < prefix_depth text p"
    by simp_all
  moreover from len next_depth st have "prefix_depth text (Suc i) = int (length st0)" by simp
  moreover from st have "matching_open text i = Some opn" by (simp add: matching_open_def)
  ultimately show ?thesis by simp
qed

lemma findLevelOpening_result:
  assumes "getNestingLevels text CHR ''['' CHR '']'' = Inr depths"
    and "i < length text" and "text ! i = CHR '']''"
  shows "\<exists>opn. matching_open text i = Some opn \<and> opn < i \<and> text ! opn = CHR ''[''
           \<and> findLevelOpening depths i =
               (if 2 \<le> opn then Inr (opn + 1) else Inl (UnmatchedClosingBracket (int i)))
           \<and> (\<forall>f. 1 \<le> f \<and> f < i \<and> depths ! f = depths ! i
                    \<and> (\<forall>g. f < g \<and> g < i \<longrightarrow> depths ! g \<noteq> depths ! i) \<longrightarrow>
                  findLevelOpening depths i = Inr (f + 2) \<and> f + 1 = opn)
           \<and> ((\<forall>f. 1 \<le> f \<and> f < i \<longrightarrow> depths ! f \<noteq> depths ! i) \<longrightarrow>
                  findLevelOpening depths i = Inl (UnmatchedClosingBracket (int i)))"
proof -
  from getNestingLevels_Inr [OF assms(1)]
  have len: "length depths = length text"
    and dep: "\<forall>p<length text. depths ! p = prefix_depth text (Suc p)"
    and nn: "\<forall>p\<le>length text. 0 \<le> prefix_depth text p"
    by simp_all
  from nn assms(2) have "\<forall>j\<le>Suc i. 0 \<le> prefix_depth text j" by simp
  from matching_open_closing [OF assms(2,3) this] obtain opn where
    m: "matching_open text i = Some opn" and lt: "opn < i" and br: "text ! opn = CHR ''[''"
    and same: "prefix_depth text opn = prefix_depth text (Suc i)"
    and above: "\<forall>p. opn < p \<and> p \<le> i \<longrightarrow> prefix_depth text (Suc i) < prefix_depth text p"
    by blast
  let ?level = "depths ! i"
  let ?P = "\<lambda>f. take i depths ! f = ?level"
  from dep assms(2) have level: "?level = prefix_depth text (Suc i)" by simp
  have inside: "depths ! f \<noteq> ?level" if "opn \<le> f" and "f < i" for f
  proof -
    from that assms(2) dep have "depths ! f = prefix_depth text (Suc f)" by simp
    moreover from that above have "prefix_depth text (Suc i) < prefix_depth text (Suc f)"
      by simp
    ultimately show ?thesis using level by simp
  qed
  have before: "depths ! (opn - 1) = ?level" if "1 \<le> opn"
  proof -
    from that lt assms(2) dep have "depths ! (opn - 1) = prefix_depth text (Suc (opn - 1))"
      by simp
    with that same level show ?thesis by simp
  qed
  have unfold: "findLevelOpening depths i =
      (case find ?P (rev [1..<i]) of
         Some f \<Rightarrow> Inr (f + 2)
       | None \<Rightarrow> Inl (UnmatchedClosingBracket (int i)))"
    using assms(2) len by (simp add: findLevelOpening_def Let_def)
  have result: "findLevelOpening depths i =
      (if 2 \<le> opn then Inr (opn + 1) else Inl (UnmatchedClosingBracket (int i)))"
  proof (cases "2 \<le> opn")
    case True
    have "find ?P (rev [1..<i]) = Some (opn - 1)"
    proof (rule find_rev_upt_Some)
      show "1 \<le> opn - 1" using True by simp
      show "opn - 1 < i" using lt by simp
      show "take i depths ! (opn - 1) = ?level" using True lt before by simp
      show "\<forall>y. opn - 1 < y \<and> y < i \<longrightarrow> \<not> take i depths ! y = ?level"
      proof (intro allI impI)
        fix y assume y: "opn - 1 < y \<and> y < i"
        then have "opn \<le> y" by arith
        with y inside [of y] show "\<not> take i depths ! y = ?level" by simp
      qed
    qed
    with True unfold show ?thesis by simp
  next
    case False
    have "find ?P (rev [1..<i]) = None"
    proof (rule find_rev_upt_None, intro allI impI)
      fix y assume "1 \<le> y \<and> y < i"
      with False inside [of y] show "\<not> take i depths ! y = ?level" by simp
    qed
    with False unfold show ?thesis by simp
  qed
  have hit: "findLevelOpening depths i = Inr (f + 2) \<and> f + 1 = opn"
    if f: "1 \<le> f \<and> f < i \<and> depths ! f = ?level
           \<and> (\<forall>g. f < g \<and> g < i \<longrightarrow> depths ! g \<noteq> ?level)" for f
  proof -
    from f inside [of f] have "f < opn" by force
    with f have two: "2 \<le> opn" by simp
    with before have "depths ! (opn - 1) = ?level" by simp
    with f lt have "\<not> f < opn - 1" by force
    with \<open>f < opn\<close> have "f + 1 = opn" by simp
    with two result show ?thesis by auto
  qed
  have miss: "findLevelOpening depths i = Inl (UnmatchedClosingBracket (int i))"
    if "\<forall>f. 1 \<le> f \<and> f < i \<longrightarrow> depths ! f \<noteq> ?level"
  proof -
    have "\<not> 2 \<le> opn"
    proof
      assume two: "2 \<le> opn"
      with before have "depths ! (opn - 1) = ?level" by simp
      moreover from two lt have "1 \<le> opn - 1 \<and> opn - 1 < i" by arith
      ultimately show False using that by blast
    qed
    with result show ?thesis by simp
  qed
  from m lt br result hit miss show ?thesis by blast
qed


lemma find_upt_Some:
  assumes "a \<le> x" and "x < b" and "P x" and "\<forall>y. a \<le> y \<and> y < x \<longrightarrow> \<not> P y"
  shows "find P [a..<b] = Some x"
proof -
  have "\<exists>i<length [a..<b]. P ([a..<b] ! i) \<and> x = [a..<b] ! i \<and> (\<forall>j<i. \<not> P ([a..<b] ! j))"
  proof (intro exI [of _ "x - a"] conjI allI impI)
    show "x - a < length [a..<b]" using assms(1,2) by simp
    show "P ([a..<b] ! (x - a))" using assms(1,2,3) by simp
    show "x = [a..<b] ! (x - a)" using assms(1,2) by simp
    fix j assume "j < x - a"
    with assms(1,2,4) show "\<not> P ([a..<b] ! j)" by simp
  qed
  then show ?thesis by (simp only: find_Some_iff)
qed


lemma prefix_depth_drop:
  "k < length text \<Longrightarrow> prefix_depth text (Suc k) < prefix_depth text k \<Longrightarrow> text ! k = CHR '']''"
  by (simp add: prefix_depth_Suc split: if_splits)


text \<open>
  The two resolvers on a validated program, from an opening bracket at \<open>i\<close>: the forward
  scan always finds the closing bracket \<open>c\<close> that matches it, and the backward scan
  from \<open>c\<close> comes back to \<open>i + 1\<close> exactly when \<open>i\<close> is at position 2 or later.
\<close>

lemma round_trip:
  assumes "getNestingLevels text CHR ''['' CHR '']'' = Inr depths"
    and "i < length text" and "text ! i = CHR ''[''"
  shows "\<exists>c. i < c \<and> c < length text \<and> text ! c = CHR '']''
           \<and> matching_open text c = Some i
           \<and> findLevelClosing depths i = Inr (c + 1)
           \<and> findLevelOpening depths c =
               (if 2 \<le> i then Inr (i + 1) else Inl (UnmatchedClosingBracket (int c)))"
proof -
  let ?n = "length text"
  let ?D = "prefix_depth text"
  from getNestingLevels_Inr [OF assms(1)]
  have len: "length depths = ?n"
    and dep: "\<forall>p<?n. depths ! p = ?D (Suc p)"
    and nn: "\<forall>p\<le>?n. 0 \<le> ?D p"
    and zero: "?D ?n = 0"
    by simp_all
  let ?level = "depths ! i"
  from dep assms(2) have level: "?level = ?D (Suc i)" by simp
  from assms(2,3) have up: "?D (Suc i) = ?D i + 1"
    by (simp add: prefix_depth_Suc)
  from nn assms(2) have "0 \<le> ?D i" by simp
  with up have pos: "0 < ?D (Suc i)" by simp
  let ?Q = "\<lambda>p. i < p \<and> p < ?n \<and> ?D (Suc p) < ?D (Suc i)"
  have "Suc i \<noteq> ?n" using pos zero by auto
  with assms(2) have "i < ?n - 1" and "Suc (?n - 1) = ?n" by arith+
  with pos zero have "?Q (?n - 1)" by simp
  then have ex: "\<exists>p. ?Q p" by blast
  define c where "c = (LEAST p. ?Q p)"
  from ex have Qc: "?Q c" unfolding c_def by (rule LeastI_ex)
  have least: "\<not> ?Q p" if "p < c" for p
    using that unfolding c_def by (rule not_less_Least)
  from Qc have ic: "i < c" and cn: "c < ?n" and drop: "?D (Suc c) < ?D (Suc i)" by simp_all
  have high: "?D (Suc i) \<le> ?D (Suc p)" if "i \<le> p" and "p < c" for p
  proof (cases "p = i")
    case True
    then show ?thesis by simp
  next
    case False
    with that least [of p] cn show ?thesis by force
  qed
  from ic have "?D (Suc i) \<le> ?D (Suc (c - 1))"
    by (intro high) simp_all
  with ic have Dc: "?D (Suc i) \<le> ?D c" by simp
  with drop cn have closing: "text ! c = CHR '']''"
    by (intro prefix_depth_drop) simp_all
  from cn closing have down: "?D (Suc c) = ?D c - 1"
    by (simp add: prefix_depth_Suc)
  with drop Dc have Dc_eq: "?D c = ?D (Suc i)" and Dsc: "?D (Suc c) = ?D i"
    using up by simp_all
  \<comment> \<open>the forward scan stops at \<open>c\<close>\<close>
  have fwd: "findLevelClosing depths i = Inr (c + 1)"
  proof -
    let ?P = "\<lambda>f. drop i depths ! f < ?level"
    have "find ?P [1..<length (drop i depths)] = Some (c - i)"
    proof (rule find_upt_Some)
      show "1 \<le> c - i" using ic by simp
      show "c - i < length (drop i depths)" using ic cn len by simp
      show "drop i depths ! (c - i) < ?level"
        using ic cn len dep drop level by simp
      show "\<forall>y. 1 \<le> y \<and> y < c - i \<longrightarrow> \<not> drop i depths ! y < ?level"
      proof (intro allI impI)
        fix y assume y: "1 \<le> y \<and> y < c - i"
        then have "i + y < c" and "i \<le> i + y" by arith+
        with high [of "i + y"] have "?D (Suc i) \<le> ?D (Suc (i + y))" by simp
        moreover from \<open>i + y < c\<close> cn dep have "depths ! (i + y) = ?D (Suc (i + y))" by simp
        ultimately show "\<not> drop i depths ! y < ?level"
          using \<open>i + y < c\<close> cn len level by simp
      qed
    qed
    with assms(2) len ic show ?thesis
      by (simp add: findLevelClosing_def Let_def)
  qed
  \<comment> \<open>the bracket matching \<open>c\<close> is \<open>i\<close>\<close>
  from nn cn have "\<forall>j\<le>Suc c. 0 \<le> ?D j" by simp
  from matching_open_closing [OF cn closing this] obtain opn where
    m: "matching_open text c = Some opn" and lt: "opn < c"
    and same: "?D opn = ?D (Suc c)"
    and above: "\<forall>p. opn < p \<and> p \<le> c \<longrightarrow> ?D (Suc c) < ?D p"
    by blast
  have "opn = i"
  proof (rule ccontr)
    assume "opn \<noteq> i"
    then consider "opn < i" | "i < opn" by arith
    then show False
    proof cases
      case 1
      with ic above have "?D (Suc c) < ?D i" by simp
      with Dsc show False by simp
    next
      case 2
      with lt high [of "opn - 1"] have "?D (Suc i) \<le> ?D opn" by simp
      with same Dsc up show False by simp
    qed
  qed
  with m have match: "matching_open text c = Some i" by simp
  from findLevelOpening_result [OF assms(1) cn closing] match
  have "findLevelOpening depths c =
          (if 2 \<le> i then Inr (i + 1) else Inl (UnmatchedClosingBracket (int c)))"
    by auto
  with ic cn closing match fwd show ?thesis by blast
qed

section \<open>Properties of the dispatch loop\<close>

lemma setCellTo_raises: "setCellTo x m = Raises e m' \<Longrightarrow> e = IndexError"
  by (auto simp: setCellTo_def Let_def split: option.splits)

lemma setValue_raises: "setValue d m = Raises e m' \<Longrightarrow> e = IndexError"
  by (auto simp: setValue_def split: option.splits dest: setCellTo_raises)

lemma setPointer_raises: "setPointer d m = Raises e m' \<Longrightarrow> e = IndexError"
  by (auto simp: setPointer_def setPointerTo_def Let_def split: option.splits)

lemma tape_call_raises:
  "tape_call f s = Raises e s' \<Longrightarrow> \<exists>m'. f (mem s) = Raises e m'"
  by (auto simp: tape_call_def split: outcome.splits)

lemma print_raises: "print m out = Raises e out' \<Longrightarrow> e = ValueError"
  by (auto simp: print_def chr_def Let_def split: if_splits)

lemma read_raises:
  "read m inp = Raises e r \<Longrightarrow> e = EOFError \<or> e = TypeError \<or> e = IndexError"
  by (auto simp: read_def split: list.splits if_splits outcome.splits dest: setCellTo_raises)

lemma findLevelClosing_raises:
  "findLevelClosing levels i = Inl e \<Longrightarrow> e = IndexError \<or> e = UnmatchedOpeningBracket (int i)"
  by (auto simp: findLevelClosing_def Let_def split: if_splits option.splits)

lemma findLevelOpening_raises:
  "findLevelOpening levels i = Inl e \<Longrightarrow> e = IndexError \<or> e = UnmatchedClosingBracket (int i)"
  by (auto simp: findLevelOpening_def Let_def split: if_splits option.splits)

lemma tape_call_setValue:
  "tape_call (setValue d) s \<noteq> Raises (UnknownInstruction c) s'"
  by (auto dest!: tape_call_raises setValue_raises)

lemma tape_call_setPointer:
  "tape_call (setPointer d) s \<noteq> Raises (UnknownInstruction c) s'"
  by (auto dest!: tape_call_raises setPointer_raises)

lemma dispatch_unknown:
  assumes "dispatch script levels s = Raises (UnknownInstruction c) s'"
  shows "s' = s \<and> c = script ! ip s \<and> c \<notin> set ''+-><.,[]''"
  using assms
  by (auto simp: dispatch_def Let_def tape_call_setValue tape_call_setPointer
           split: if_splits outcome.splits sum.splits prod.splits
           dest: print_raises read_raises findLevelClosing_raises findLevelOpening_raises)

lemma loop_unknown:
  "loop fuel script levels s = Some (Raises (UnknownInstruction c) s') \<Longrightarrow>
   runs_to script levels s s' \<and> ip s' < length script \<and> script ! ip s' = c
   \<and> c \<notin> set ''+-><.,[]''
   \<and> dispatch script levels s' = Raises (UnknownInstruction c) s'"
proof (induction fuel arbitrary: s)
  case 0
  then show ?case by (simp split: if_splits)
next
  case (Suc fuel)
  from Suc.prems have inside: "ip s < length script"
    by (simp split: if_splits)
  show ?case
  proof (cases "dispatch script levels s")
    case (Returns s1)
    with Suc.prems inside
    have "loop fuel script levels s1 = Some (Raises (UnknownInstruction c) s')" by simp
    from Suc.IH [OF this] inside Returns show ?thesis
      by (auto intro: runs_to.pass)
  next
    case (Raises e s1)
    with Suc.prems inside have e: "e = UnknownInstruction c" "s1 = s'" by simp_all
    with Raises dispatch_unknown [of script levels s c s'] inside show ?thesis
      by (auto intro: runs_to.here)
  qed
qed

lemma getNestingLevels_raises:
  "getNestingLevels text CHR ''['' CHR '']'' = Inl e \<Longrightarrow>
   e = EmptyProgram \<or> (\<exists>pos. e = UnmatchedClosingBracket pos \<or> e = UnmatchedOpeningBracket pos)"
  using loop_Inl [of 0 "length text" "text" "- 1" "replicate (length text) 0" e]
  by (auto simp: getNestingLevels_def split: if_splits sum.splits prod.splits)

lemma levels_plus_x: "getNestingLevels ''+x'' CHR ''['' CHR '']'' = Inr [0, 0]"
  by code_simp

lemma plus_x_fresh_tape:
  assumes "1 \<le> memsize" and "2 \<le> fuel"
  shows "brainfuck fuel ''+x'' None memsize inp =
           Some (Raises (UnknownInstruction CHR ''x'')
                  \<lparr>ip = 1,
                   mem = \<lparr>cells = (replicate (nat memsize) 0)[0 := 1], pointer = 0, value = 1\<rparr>,
                   stdin = inp, stdout = []\<rparr>)"
proof -
  from assms(2) obtain n where fuel: "fuel = Suc (Suc n)"
    by (metis Suc_le_D numeral_2_eq_2 Suc_le_mono)
  from assms(1) have size: "0 < nat memsize" by simp
  let ?m = "Memory_init memsize"
  have plus: "setValue 1 ?m =
      Returns \<lparr>cells = (replicate (nat memsize) 0)[0 := 1], pointer = 0, value = 1\<rparr>"
    using size by (simp add: setValue_def setCellTo_def Memory_init_def py_index_def Let_def)
  show ?thesis
    unfolding brainfuck_def fuel
    by (simp add: levels_plus_x dispatch_def tape_call_def plus Let_def)
qed

lemma digits_small: "n < 10 \<Longrightarrow> digits n = [48 + n]"
  by simp

section \<open>The claims\<close>

text \<open>
  Claim C1 (the code departs from it). Resolving forward from an opening bracket and then
  backward from its closing bracket should come back to the position after the opening
  bracket. For a bracket at position 0 or 1 it does not: the backward scan of
  \<^verbatim>\<open>findLevelOpening\<close> stops before index 0 and raises on the validated programs
  \<^verbatim>\<open>[]\<close> and \<^verbatim>\<open>+[]\<close>, although \<^verbatim>\<open>findLevelClosing\<close> has found the closing bracket.
\<close>

theorem resolvers_not_inverse_at_start:
  "getNestingLevels ''[]'' CHR ''['' CHR '']'' = Inr [1, 0]
   \<and> findLevelClosing [1, 0] 0 = Inr 2
   \<and> findLevelOpening [1, 0] (2 - 1) = Inl (UnmatchedClosingBracket 1)
   \<and> getNestingLevels ''+[]'' CHR ''['' CHR '']'' = Inr [0, 1, 0]
   \<and> findLevelClosing [0, 1, 0] 1 = Inr 3
   \<and> findLevelOpening [0, 1, 0] (3 - 1) = Inl (UnmatchedClosingBracket 2)
   \<and> brainfuck 3 ''+[]'' None 1 [] =
        Some (Raises (UnmatchedClosingBracket 2)
               \<lparr>ip = 2, mem = \<lparr>cells = [1], pointer = 0, value = 1\<rparr>,
                stdin = [], stdout = []\<rparr>)"
  by code_simp

text \<open>
  Claim C2. On the depths of a validated program and a closing bracket at \<open>i\<close>, whose
  depth is \<open>level\<close>, \<^verbatim>\<open>findLevelOpening\<close> scans from \<open>i - 1\<close> down to 1, never index 0.
  The first position \<open>f\<close> it meets with depth \<open>level\<close> makes it return \<open>f + 2\<close>, and
  \<open>f + 1\<close> is then the matching opening bracket; when the scan meets none it raises
  UnmatchedClosingBracket \<open>i\<close>. In terms of the matching opening bracket \<open>opn\<close>: the
  result is \<open>opn + 1\<close> when \<open>opn\<close> is at position 2 or later, and the exception otherwise.
\<close>

theorem findLevelOpening_scan:
  assumes "getNestingLevels text CHR ''['' CHR '']'' = Inr depths"
    and "i < length text" and "text ! i = CHR '']''"
  shows "\<exists>opn. matching_open text i = Some opn \<and> opn < i \<and> text ! opn = CHR ''[''
           \<and> findLevelOpening depths i =
               (if 2 \<le> opn then Inr (opn + 1) else Inl (UnmatchedClosingBracket (int i)))
           \<and> (\<forall>f. 1 \<le> f \<and> f < i \<and> depths ! f = depths ! i
                    \<and> (\<forall>g. f < g \<and> g < i \<longrightarrow> depths ! g \<noteq> depths ! i) \<longrightarrow>
                  findLevelOpening depths i = Inr (f + 2) \<and> f + 1 = opn)
           \<and> ((\<forall>f. 1 \<le> f \<and> f < i \<longrightarrow> depths ! f \<noteq> depths ! i) \<longrightarrow>
                  findLevelOpening depths i = Inl (UnmatchedClosingBracket (int i)))"
  using assms by (rule findLevelOpening_result)

theorem findLevelOpening_scan_witness:
  "getNestingLevels ''++[-]'' CHR ''['' CHR '']'' = Inr [0, 0, 1, 1, 0]
   \<and> 4 < length ''++[-]'' \<and> ''++[-]'' ! 4 = CHR '']''
   \<and> matching_open ''++[-]'' 4 = Some 2
   \<and> [0, 0, 1, 1, 0 :: int] ! 1 = [0, 0, 1, 1, 0] ! 4
   \<and> [0, 0, 1, 1, 0 :: int] ! 2 \<noteq> [0, 0, 1, 1, 0] ! 4
   \<and> [0, 0, 1, 1, 0 :: int] ! 3 \<noteq> [0, 0, 1, 1, 0] ! 4
   \<and> findLevelOpening [0, 0, 1, 1, 0] 4 = Inr 3
   \<and> getNestingLevels ''+[]'' CHR ''['' CHR '']'' = Inr [0, 1, 0]
   \<and> 2 < length ''+[]'' \<and> ''+[]'' ! 2 = CHR '']''
   \<and> matching_open ''+[]'' 2 = Some 1
   \<and> [0, 1, 0 :: int] ! 1 \<noteq> [0, 1, 0] ! 2
   \<and> findLevelOpening [0, 1, 0] 2 = Inl (UnmatchedClosingBracket 2)"
proof -
  have a: "getNestingLevels ''++[-]'' CHR ''['' CHR '']'' = Inr [0, 0, 1, 1, 0]"
    by code_simp
  have b: "4 < length ''++[-]''" and c: "''++[-]'' ! 4 = CHR '']''"
    by simp_all
  have d: "matching_open ''++[-]'' 4 = Some 2"
    by code_simp
  from findLevelOpening_scan [OF a b c] d
  have e: "findLevelOpening [0, 0, 1, 1, 0] 4 = Inr 3"
    by auto
  have a': "getNestingLevels ''+[]'' CHR ''['' CHR '']'' = Inr [0, 1, 0]"
    by code_simp
  have b': "2 < length ''+[]''" and c': "''+[]'' ! 2 = CHR '']''"
    by simp_all
  have d': "matching_open ''+[]'' 2 = Some 1"
    by code_simp
  from findLevelOpening_scan [OF a' b' c'] d'
  have e': "findLevelOpening [0, 1, 0] 2 = Inl (UnmatchedClosingBracket 2)"
    by auto
  from a b c d e a' b' c' d' e' show ?thesis by simp
qed

text \<open>
  Claim C3. On a non-empty text with balanced brackets \<^verbatim>\<open>getNestingLevels\<close> returns
  one integer per character, the number of opening brackets still unmatched once that
  character has been read: an opening bracket counts itself (one more than before it),
  a closing bracket has already taken its opening bracket off (one less than before it).
\<close>

theorem depths_count_enclosing_brackets:
  assumes "text \<noteq> []" and "balanced text"
  shows "\<exists>depths. getNestingLevels text CHR ''['' CHR '']'' = Inr depths
           \<and> length depths = length text
           \<and> (\<forall>i<length text.
                 depths ! i = int (length (open_stack text (Suc i)))
                 \<and> (text ! i = CHR ''['' \<longrightarrow>
                       depths ! i = int (length (open_stack text i)) + 1)
                 \<and> (text ! i = CHR '']'' \<longrightarrow>
                       depths ! i = int (length (open_stack text i)) - 1))"
proof -
  from getNestingLevels_balanced [OF assms] obtain depths
    where ok: "getNestingLevels text CHR ''['' CHR '']'' = Inr depths" by blast
  from getNestingLevels_Inr [OF ok]
  have len: "length depths = length text"
    and dep: "\<forall>p<length text. depths ! p = prefix_depth text (Suc p)"
    and nn: "\<forall>p\<le>length text. 0 \<le> prefix_depth text p"
    by simp_all
  have "depths ! i = int (length (open_stack text (Suc i)))
        \<and> (text ! i = CHR ''['' \<longrightarrow> depths ! i = int (length (open_stack text i)) + 1)
        \<and> (text ! i = CHR '']'' \<longrightarrow> depths ! i = int (length (open_stack text i)) - 1)"
    if i: "i < length text" for i
  proof -
    from i nn have after: "int (length (open_stack text (Suc i))) = prefix_depth text (Suc i)"
      by (intro open_stack_length) simp_all
    from i nn have before: "int (length (open_stack text i)) = prefix_depth text i"
      by (intro open_stack_length) simp_all
    from dep i have "depths ! i = prefix_depth text (Suc i)" by simp
    with after before i show ?thesis
      by (simp add: prefix_depth_Suc)
  qed
  with ok len show ?thesis by blast
qed

theorem depths_count_enclosing_brackets_witness:
  "''+[++[+>]]'' \<noteq> [] \<and> balanced ''+[++[+>]]''
   \<and> getNestingLevels ''+[++[+>]]'' CHR ''['' CHR '']'' = Inr [0, 1, 1, 1, 2, 2, 2, 1, 0]
   \<and> map (\<lambda>i. int (length (open_stack ''+[++[+>]]'' (Suc i)))) [0..<9]
       = [0, 1, 1, 1, 2, 2, 2, 1, 0]
   \<and> (\<exists>depths. getNestingLevels ''+[++[+>]]'' CHR ''['' CHR '']'' = Inr depths
         \<and> length depths = length ''+[++[+>]]''
         \<and> (\<forall>i<length ''+[++[+>]]''.
               depths ! i = int (length (open_stack ''+[++[+>]]'' (Suc i)))
               \<and> (''+[++[+>]]'' ! i = CHR ''['' \<longrightarrow>
                     depths ! i = int (length (open_stack ''+[++[+>]]'' i)) + 1)
               \<and> (''+[++[+>]]'' ! i = CHR '']'' \<longrightarrow>
                     depths ! i = int (length (open_stack ''+[++[+>]]'' i)) - 1)))"
proof -
  have ne: "''+[++[+>]]'' \<noteq> []" by simp
  have bal: "balanced ''+[++[+>]]''" by code_simp
  have run: "getNestingLevels ''+[++[+>]]'' CHR ''['' CHR '']'' = Inr [0, 1, 1, 1, 2, 2, 2, 1, 0]"
    by code_simp
  have stk: "map (\<lambda>i. int (length (open_stack ''+[++[+>]]'' (Suc i)))) [0..<9]
       = [0, 1, 1, 1, 2, 2, 2, 1, 0]"
    by code_simp
  from ne bal run stk depths_count_enclosing_brackets [OF ne bal] show ?thesis
    by (intro conjI)
qed

text \<open>
  Claim C4 (the code departs from it). The claim says that \<^verbatim>\<open>read\<close> succeeds on every
  input line and stores 0 for an empty line. On the empty line the code raises TypeError
  instead: the line is consumed and the tape is left exactly as it was.
\<close>

theorem read_empty_line_raises:
  "read m ([] # rest) = Raises TypeError (m, rest)"
  by (simp add: read_def)

text \<open>
  Claim C5. When the cached value is a code point (from 0 to 0x10FFFF), \<^verbatim>\<open>print\<close>
  appends the decimal digit of a value from 0 to 9 (the character with code point
  48 + value) and otherwise the character whose code point is the value.
\<close>

theorem print_digit_or_character:
  assumes "0 \<le> value m" and "value m \<le> 0x10FFFF"
  shows "print m out =
           Returns (out @ (if value m \<le> 9 then [48 + nat (value m)] else [nat (value m)]))"
proof (cases "value m \<le> 9")
  case True
  with assms(1) have "nat (value m) < 10" by simp
  then have "digits (nat (value m)) = [48 + nat (value m)]" by (rule digits_small)
  with True assms(1) show ?thesis by (simp add: print_def str_int_def)
next
  case False
  with assms(2) show ?thesis by (simp add: print_def chr_def)
qed

theorem print_digit_or_character_witness:
  "0 \<le> value \<lparr>cells = [3], pointer = 0, value = 3\<rparr>
   \<and> value \<lparr>cells = [3], pointer = 0, value = 3\<rparr> \<le> 0x10FFFF
   \<and> 0 \<le> value \<lparr>cells = [64], pointer = 0, value = 64\<rparr>
   \<and> value \<lparr>cells = [64], pointer = 0, value = 64\<rparr> \<le> 0x10FFFF
   \<and> print \<lparr>cells = [3], pointer = 0, value = 3\<rparr> [] = Returns [51]
   \<and> print \<lparr>cells = [64], pointer = 0, value = 64\<rparr> [] = Returns [64]"
  using print_digit_or_character [of "\<lparr>cells = [3], pointer = 0, value = 3\<rparr>" "[]"]
        print_digit_or_character [of "\<lparr>cells = [64], pointer = 0, value = 64\<rparr>" "[]"]
  by simp

text \<open>
  Claim C6. From a tape whose cells and pointer are non-negative, every sequence of
  \<^verbatim>\<open>setValue\<close>, \<^verbatim>\<open>setCellTo\<close> and \<^verbatim>\<open>setPointer\<close> calls (a call that raises
  included) leaves every cell and the pointer non-negative; a call that would make the
  current cell negative stores exactly 0, and a move that would take the pointer below 0
  leaves it at exactly 0.
\<close>

theorem tape_clamping:
  assumes "\<forall>v\<in>set (cells m). 0 \<le> v" and "0 \<le> pointer m"
  shows "(\<forall>v\<in>set (cells (apply_calls cs m)). 0 \<le> v)
       \<and> 0 \<le> pointer (apply_calls cs m)
       \<and> (\<forall>d. pointer m < int (length (cells m)) \<and> cells m ! nat (pointer m) + d < 0 \<longrightarrow>
             setValue d m = Returns (m\<lparr>cells := (cells m)[nat (pointer m) := 0], value := 0\<rparr>))
       \<and> (\<forall>x. pointer m < int (length (cells m)) \<and> x < 0 \<longrightarrow>
             setCellTo x m = Returns (m\<lparr>cells := (cells m)[nat (pointer m) := 0], value := 0\<rparr>))
       \<and> (\<forall>d. pointer m + d < 0 \<longrightarrow> pointer (after (setPointer d m)) = 0)"
proof -
  have seq: "(\<forall>v\<in>set (cells (apply_calls cs m)). 0 \<le> v) \<and> 0 \<le> pointer (apply_calls cs m)"
    using assms by (rule apply_calls_invariant)
  have cell: "setCellTo x m = Returns (m\<lparr>cells := (cells m)[nat (pointer m) := 0], value := 0\<rparr>)"
    if "pointer m < int (length (cells m))" and "x < 0" for x
    using that assms(2) by (simp add: setCellTo_def Let_def py_index_inside max_def)
  have val: "setValue d m = Returns (m\<lparr>cells := (cells m)[nat (pointer m) := 0], value := 0\<rparr>)"
    if "pointer m < int (length (cells m))" and "cells m ! nat (pointer m) + d < 0" for d
    using that assms(2) cell [of "cells m ! nat (pointer m) + d"]
    by (simp add: setValue_def py_index_inside)
  have ptr: "pointer (after (setPointer d m)) = 0" if "pointer m + d < 0" for d
    using that by (simp add: setPointer_pointer)
  from seq cell val ptr show ?thesis by blast
qed

theorem tape_clamping_witness:
  "list_all (\<lambda>v. 0 \<le> v) (cells \<lparr>cells = [1, 0], pointer = 0, value = 1\<rparr>)
   \<and> 0 \<le> pointer \<lparr>cells = [1, 0], pointer = 0, value = 1\<rparr>
   \<and> apply_calls [SetValue (- 2), SetPointer (- 3), SetCellTo (- 1), SetPointer 1, SetValue 4, SetValue (- 9)]
     \<lparr>cells = [1, 0], pointer = 0, value = 1\<rparr> = \<lparr>cells = [0, 0], pointer = 1, value = 0\<rparr>
   \<and> setValue (- 2) \<lparr>cells = [1, 0], pointer = 0, value = 1\<rparr> = Returns \<lparr>cells = [0, 0], pointer = 0, value = 0\<rparr>
   \<and> setCellTo (- 5) \<lparr>cells = [1, 0], pointer = 0, value = 1\<rparr> = Returns \<lparr>cells = [0, 0], pointer = 0, value = 0\<rparr>
   \<and> pointer (after (setPointer (- 3) \<lparr>cells = [1, 0], pointer = 0, value = 1\<rparr>)) = 0"
  using tape_clamping [of "\<lparr>cells = [1, 0], pointer = 0, value = 1\<rparr>"
     "[SetValue (- 2), SetPointer (- 3), SetCellTo (- 1), SetPointer 1, SetValue 4, SetValue (- 9)]"]
  by (simp add: apply_calls_def setValue_def setCellTo_def setPointer_def setPointerTo_def py_index_def)

text \<open>
  Claim C7, as stated, fails on \<^verbatim>\<open>[[\<close>: the position reported is 1, the inner
  bracket, not 0.
\<close>

theorem first_bracket_counterexample:
  "getNestingLevels ''[['' CHR ''['' CHR '']'' = Inl (UnmatchedOpeningBracket 1)
   \<and> getNestingLevels ''[['' CHR ''['' CHR '']'' \<noteq> Inl (UnmatchedOpeningBracket 0)"
  by code_simp

text \<open>
  Claim C7, amended. \<^verbatim>\<open>[[\<close> fails with UnmatchedOpeningBracket at position 1, the
  last opening bracket of the text, and \<^verbatim>\<open>]\<close> fails with UnmatchedClosingBracket at
  position 0. In general UnmatchedOpeningBracket carries \<^verbatim>\<open>lastopen\<close>, the position of
  the last opening bracket in the text, and it is raised exactly when no prefix closes
  more than it opens and the whole text opens more than it closes.
\<close>

theorem unmatched_bracket_positions:
  "getNestingLevels ''[['' CHR ''['' CHR '']'' = Inl (UnmatchedOpeningBracket 1)
   \<and> getNestingLevels '']'' CHR ''['' CHR '']'' = Inl (UnmatchedClosingBracket 0)
   \<and> (getNestingLevels text CHR ''['' CHR '']'' = Inl (UnmatchedOpeningBracket pos) \<longrightarrow>
         0 \<le> pos \<and> nat pos < length text \<and> text ! nat pos = CHR ''[''
         \<and> (\<forall>q. nat pos < q \<and> q < length text \<longrightarrow> text ! q \<noteq> CHR ''['')
         \<and> (\<forall>p\<le>length text. 0 \<le> prefix_depth text p)
         \<and> 0 < prefix_depth text (length text))
   \<and> (text \<noteq> [] \<and> (\<forall>p\<le>length text. 0 \<le> prefix_depth text p)
         \<and> 0 < prefix_depth text (length text) \<longrightarrow>
         (\<exists>pos. getNestingLevels text CHR ''['' CHR '']'' = Inl (UnmatchedOpeningBracket pos)))"
proof -
  have a: "getNestingLevels ''[['' CHR ''['' CHR '']'' = Inl (UnmatchedOpeningBracket 1)"
    by code_simp
  have b: "getNestingLevels '']'' CHR ''['' CHR '']'' = Inl (UnmatchedClosingBracket 0)"
    by code_simp
  have c: "\<exists>pos. getNestingLevels text CHR ''['' CHR '']'' = Inl (UnmatchedOpeningBracket pos)"
    if ne: "text \<noteq> []" and nn: "\<forall>p\<le>length text. 0 \<le> prefix_depth text p"
      and pos: "0 < prefix_depth text (length text)"
  proof -
    let ?n = "length text"
    from nn have "\<forall>p. 0 \<le> p \<and> p < ?n \<longrightarrow> 0 \<le> prefix_depth text (Suc p)" by simp
    from loop_total [OF _ _ this] obtain r where
      run: "getNestingLevels_loop text CHR ''['' CHR '']'' [0..<?n]
              (prefix_depth text 0, - 1, replicate ?n 0) = Inr r"
      by blast
    obtain d lo ds where r: "r = (d, lo, ds)" by (cases r)
    from loop_Inr [OF _ _ run [unfolded r]] pos have "0 < d" by simp
    with run r ne show ?thesis
      by (simp add: getNestingLevels_def)
  qed
  from a b c getNestingLevels_opening [of "text" pos] show ?thesis by blast
qed

theorem unmatched_bracket_positions_witness:
  "getNestingLevels ''[+[]'' CHR ''['' CHR '']'' = Inl (UnmatchedOpeningBracket 2)
   \<and> ''[+[]'' \<noteq> []
   \<and> list_all (\<lambda>p. 0 \<le> prefix_depth ''[+[]'' p) [0..<Suc (length ''[+[]'')]
   \<and> 0 < prefix_depth ''[+[]'' (length ''[+[]'')
   \<and> nat 2 < length ''[+[]'' \<and> ''[+[]'' ! nat 2 = CHR ''[''
   \<and> ''[+[]'' ! 3 \<noteq> CHR ''[''"
proof -
  have h: "getNestingLevels ''[+[]'' CHR ''['' CHR '']'' = Inl (UnmatchedOpeningBracket 2)"
    by code_simp
  have nn: "list_all (\<lambda>p. 0 \<le> prefix_depth ''[+[]'' p) [0..<Suc (length ''[+[]'')]"
    by code_simp
  from h unmatched_bracket_positions [of "''[+[]''" 2]
  have "nat 2 < length ''[+[]'' \<and> ''[+[]'' ! nat 2 = CHR ''[''
        \<and> 0 < prefix_depth ''[+[]'' (length ''[+[]'')"
    by blast
  with h nn show ?thesis by simp
qed

text \<open>
  Claim C8. On a fresh tape with at least one cell, \<^verbatim>\<open>+x\<close> raises UnknownInstruction
  \<^verbatim>\<open>x\<close> and the tape it leaves has current cell 1. In general, when a run raises
  UnknownInstruction \<open>c\<close>, the configuration at that moment is exactly the one the
  completed instructions produced from the start, standing at a character \<open>c\<close> that is no
  instruction; the failing dispatch itself changes nothing.
\<close>

theorem unknown_instruction_keeps_tape:
  "(1 \<le> memsize \<and> 2 \<le> fuel \<longrightarrow>
      brainfuck fuel ''+x'' None memsize inp =
        Some (Raises (UnknownInstruction CHR ''x'')
               \<lparr>ip = 1,
                mem = \<lparr>cells = (replicate (nat memsize) 0)[0 := 1], pointer = 0, value = 1\<rparr>,
                stdin = inp, stdout = []\<rparr>))
   \<and> (brainfuck n text memory size' inp' = Some (Raises (UnknownInstruction c) s') \<longrightarrow>
        (\<exists>levels. getNestingLevels text CHR ''['' CHR '']'' = Inr levels
           \<and> runs_to text levels
                \<lparr>ip = 0, mem = (case memory of None \<Rightarrow> Memory_init size' | Some m \<Rightarrow> m),
                 stdin = inp', stdout = []\<rparr> s'
           \<and> ip s' < length text \<and> text ! ip s' = c \<and> c \<notin> set ''+-><.,[]''
           \<and> dispatch text levels s' = Raises (UnknownInstruction c) s'))"
proof (intro conjI impI)
  assume "1 \<le> memsize \<and> 2 \<le> fuel"
  then show "brainfuck fuel ''+x'' None memsize inp =
        Some (Raises (UnknownInstruction CHR ''x'')
               \<lparr>ip = 1,
                mem = \<lparr>cells = (replicate (nat memsize) 0)[0 := 1], pointer = 0, value = 1\<rparr>,
                stdin = inp, stdout = []\<rparr>)"
    by (simp add: plus_x_fresh_tape)
next
  assume run: "brainfuck n text memory size' inp' = Some (Raises (UnknownInstruction c) s')"
  let ?s = "\<lparr>ip = 0, mem = (case memory of None \<Rightarrow> Memory_init size' | Some m \<Rightarrow> m),
             stdin = inp', stdout = []\<rparr>"
  show "\<exists>levels. getNestingLevels text CHR ''['' CHR '']'' = Inr levels
           \<and> runs_to text levels ?s s'
           \<and> ip s' < length text \<and> text ! ip s' = c \<and> c \<notin> set ''+-><.,[]''
           \<and> dispatch text levels s' = Raises (UnknownInstruction c) s'"
  proof (cases "getNestingLevels text CHR ''['' CHR '']''")
    case (Inl e)
    with run have "e = UnknownInstruction c" by (simp add: brainfuck_def Let_def)
    with getNestingLevels_raises [OF Inl] show ?thesis by auto
  next
    case (Inr levels)
    with run have "loop n text levels ?s = Some (Raises (UnknownInstruction c) s')"
      by (simp add: brainfuck_def Let_def)
    from loop_unknown [OF this] Inr show ?thesis by blast
  qed
qed

theorem unknown_instruction_keeps_tape_witness:
  "(1::int) \<le> 30000 \<and> (2::nat) \<le> 2
   \<and> brainfuck 2 ''+x'' None 30000 [] =
        Some (Raises (UnknownInstruction CHR ''x'')
               \<lparr>ip = 1,
                mem = \<lparr>cells = (replicate (nat 30000) 0)[0 := 1], pointer = 0, value = 1\<rparr>,
                stdin = [], stdout = []\<rparr>)
   \<and> brainfuck 5 ''>+x-'' (Some \<lparr>cells = [7, 8], pointer = 0, value = 7\<rparr>) 0 [] =
        Some (Raises (UnknownInstruction CHR ''x'')
               \<lparr>ip = 2, mem = \<lparr>cells = [7, 9], pointer = 1, value = 9\<rparr>,
                stdin = [], stdout = []\<rparr>)
   \<and> runs_to ''>+x-'' [0, 0, 0, 0]
        \<lparr>ip = 0, mem = \<lparr>cells = [7, 8], pointer = 0, value = 7\<rparr>, stdin = [], stdout = []\<rparr>
        \<lparr>ip = 2, mem = \<lparr>cells = [7, 9], pointer = 1, value = 9\<rparr>, stdin = [], stdout = []\<rparr>"
proof -
  have levels: "getNestingLevels ''>+x-'' CHR ''['' CHR '']'' = Inr [0, 0, 0, 0]"
    by code_simp
  have run: "brainfuck 5 ''>+x-'' (Some \<lparr>cells = [7, 8], pointer = 0, value = 7\<rparr>) 0 [] =
        Some (Raises (UnknownInstruction CHR ''x'')
               \<lparr>ip = 2, mem = \<lparr>cells = [7, 9], pointer = 1, value = 9\<rparr>,
                stdin = [], stdout = []\<rparr>)"
    by code_simp
  from unknown_instruction_keeps_tape [of 30000 2 "[]" 5 "''>+x-''"
      "Some \<lparr>cells = [7, 8], pointer = 0, value = 7\<rparr>" 0 "[]" "CHR ''x''"
      "\<lparr>ip = 2, mem = \<lparr>cells = [7, 9], pointer = 1, value = 9\<rparr>, stdin = [], stdout = []\<rparr>"]
    run levels
  show ?thesis by simp
qed

text \<open>
  Claim C9. On a tape whose pointer is within bounds, every mutating operation that
  returns leaves the cached \<^verbatim>\<open>value\<close> equal to \<^verbatim>\<open>cells[pointer]\<close>: \<^verbatim>\<open>setValue\<close>
  and \<^verbatim>\<open>setCellTo\<close> always return; a move that raises has left the pointer outside
  the tape, where \<^verbatim>\<open>cells[pointer]\<close> does not exist, and a \<^verbatim>\<open>read\<close> that raises has
  not touched the tape.
\<close>

theorem cached_value_synchronised:
  assumes "0 \<le> pointer m" and "pointer m < int (length (cells m))"
  shows "(\<exists>m'. setValue d m = Returns m' \<and> cached m')
       \<and> (\<exists>m'. setCellTo x m = Returns m' \<and> cached m')
       \<and> (case setPointer d m of
             Returns m' \<Rightarrow> cached m'
           | Raises e m' \<Rightarrow> py_index (cells m') (pointer m') = None)
       \<and> (case setPointerTo c m of
             Returns m' \<Rightarrow> cached m'
           | Raises e m' \<Rightarrow> py_index (cells m') (pointer m') = None)
       \<and> (case read m inp of
             Returns (m', rest) \<Rightarrow> cached m'
           | Raises e (m', rest) \<Rightarrow> m' = m)"
proof -
  from assms have k: "py_index (cells m) (pointer m) = Some (nat (pointer m))"
    by (rule py_index_inside)
  have 1: "\<exists>m'. setValue d m = Returns m' \<and> cached m'"
    using setValue_cached [OF k, of d] by blast
  have 2: "\<exists>m'. setCellTo x m = Returns m' \<and> cached m'"
    using setCellTo_cached [OF k, of x] by blast
  have 3: "case setPointer d m of
             Returns m' \<Rightarrow> cached m'
           | Raises e m' \<Rightarrow> py_index (cells m') (pointer m') = None"
    unfolding setPointer_def by (rule setPointerTo_cached)
  note 4 = setPointerTo_cached [of c m]
  note 5 = read_cached [OF k, of inp]
  from 1 2 3 4 5 show ?thesis by blast
qed

theorem cached_value_synchronised_witness:
  "0 \<le> pointer \<lparr>cells = [1, 7], pointer = 0, value = 1\<rparr>
   \<and> pointer \<lparr>cells = [1, 7], pointer = 0, value = 1\<rparr>
       < int (length (cells \<lparr>cells = [1, 7], pointer = 0, value = 1\<rparr>))
   \<and> setValue 5 \<lparr>cells = [1, 7], pointer = 0, value = 1\<rparr> = Returns \<lparr>cells = [6, 7], pointer = 0, value = 6\<rparr>
   \<and> cached \<lparr>cells = [6, 7], pointer = 0, value = 6\<rparr>
   \<and> setPointer 1 \<lparr>cells = [1, 7], pointer = 0, value = 1\<rparr> = Returns \<lparr>cells = [1, 7], pointer = 1, value = 7\<rparr>
   \<and> cached \<lparr>cells = [1, 7], pointer = 1, value = 7\<rparr>
   \<and> read \<lparr>cells = [1, 7], pointer = 0, value = 1\<rparr> [[97, 98]] = Returns (\<lparr>cells = [97, 7], pointer = 0, value = 97\<rparr>, [])
   \<and> cached \<lparr>cells = [97, 7], pointer = 0, value = 97\<rparr>"
  using cached_value_synchronised [of "\<lparr>cells = [1, 7], pointer = 0, value = 1\<rparr>" 5 0 1 "[[97, 98]]"]
  by (simp add: setValue_def setCellTo_def setPointer_def setPointerTo_def read_def ord_def py_index_def)

text \<open>
  Claim C10, as stated, fails on a tape of size 0: the move by \<open>-1\<close> from pointer 0
  has \<open>p + delta < 0\<close>, is clamped to 0, and raises IndexError all the same.
\<close>

theorem move_on_empty_tape_counterexample:
  "pointer (Memory_init 0) + (- 1) < 0
   \<and> setPointer (- 1) (Memory_init 0) = Raises IndexError (Memory_init 0)"
  by (simp add: Memory_init_def setPointer_def setPointerTo_def py_index_def)

text \<open>
  Claim C10, amended to tapes of size at least 1. A move with \<open>p + delta\<close> at or beyond
  the size raises IndexError at the move itself, leaving the new pointer behind; a move
  with \<open>0 \<le> p + delta < N\<close> returns, and so does a move with \<open>p + delta < 0\<close>, clamped
  to 0. After a move that returned, every \<^verbatim>\<open>setCellTo\<close> and \<^verbatim>\<open>setValue\<close> returns: no
  out-of-range fault is left for a later access.
\<close>

theorem move_faults_at_the_move:
  assumes "cells m \<noteq> []"
  shows "(int (length (cells m)) \<le> pointer m + d \<longrightarrow>
            setPointer d m = Raises IndexError (m\<lparr>pointer := pointer m + d\<rparr>))
       \<and> (0 \<le> pointer m + d \<and> pointer m + d < int (length (cells m)) \<longrightarrow>
            setPointer d m =
              Returns (m\<lparr>pointer := pointer m + d, value := cells m ! nat (pointer m + d)\<rparr>))
       \<and> (pointer m + d < 0 \<longrightarrow>
            setPointer d m = Returns (m\<lparr>pointer := 0, value := cells m ! 0\<rparr>))
       \<and> (\<forall>m'. setPointer d m = Returns m' \<longrightarrow>
            (\<forall>x. \<exists>m''. setCellTo x m' = Returns m'') \<and> (\<forall>e. \<exists>m''. setValue e m' = Returns m''))"
proof -
  have beyond: "setPointer d m = Raises IndexError (m\<lparr>pointer := pointer m + d\<rparr>)"
    if "int (length (cells m)) \<le> pointer m + d"
  proof -
    from assms have "0 < int (length (cells m))" by simp
    with that have "max (pointer m + d) 0 = pointer m + d" by simp
    with that show ?thesis
      by (simp add: setPointer_def setPointerTo_def Let_def py_index_beyond)
  qed
  have inside: "setPointer d m =
      Returns (m\<lparr>pointer := pointer m + d, value := cells m ! nat (pointer m + d)\<rparr>)"
    if "0 \<le> pointer m + d \<and> pointer m + d < int (length (cells m))"
  proof -
    from that have "max (pointer m + d) 0 = pointer m + d" by simp
    with that show ?thesis
      by (simp add: setPointer_def setPointerTo_def Let_def py_index_inside)
  qed
  have below: "setPointer d m = Returns (m\<lparr>pointer := 0, value := cells m ! 0\<rparr>)"
    if "pointer m + d < 0"
  proof -
    from that have "max (pointer m + d) 0 = 0" by simp
    with assms show ?thesis
      by (simp add: setPointer_def setPointerTo_def Let_def py_index_inside)
  qed
  have later: "(\<forall>x. \<exists>m''. setCellTo x m' = Returns m'') \<and> (\<forall>e. \<exists>m''. setValue e m' = Returns m'')"
    if "setPointer d m = Returns m'" for m'
  proof -
    from that obtain k where "py_index (cells m') (pointer m') = Some k"
      by (auto simp: setPointer_def setPointerTo_def Let_def split: option.splits)
    then show ?thesis
      using setCellTo_cached [of m' k] setValue_cached [of m' k] by blast
  qed
  from beyond inside below later show ?thesis by blast
qed

theorem move_faults_at_the_move_witness:
  "cells \<lparr>cells = [4, 5, 6], pointer = 1, value = 5\<rparr> \<noteq> []
   \<and> setPointer 2 \<lparr>cells = [4, 5, 6], pointer = 1, value = 5\<rparr>
       = Raises IndexError \<lparr>cells = [4, 5, 6], pointer = 3, value = 5\<rparr>
   \<and> setPointer 1 \<lparr>cells = [4, 5, 6], pointer = 1, value = 5\<rparr>
       = Returns \<lparr>cells = [4, 5, 6], pointer = 2, value = 6\<rparr>
   \<and> setPointer (- 2) \<lparr>cells = [4, 5, 6], pointer = 1, value = 5\<rparr>
       = Returns \<lparr>cells = [4, 5, 6], pointer = 0, value = 4\<rparr>
   \<and> (\<exists>m''. setCellTo 9 \<lparr>cells = [4, 5, 6], pointer = 2, value = 6\<rparr> = Returns m'')
   \<and> (\<exists>m''. setValue (- 1) \<lparr>cells = [4, 5, 6], pointer = 2, value = 6\<rparr> = Returns m'')"
  using move_faults_at_the_move [of "\<lparr>cells = [4, 5, 6], pointer = 1, value = 5\<rparr>" 2]
        move_faults_at_the_move [of "\<lparr>cells = [4, 5, 6], pointer = 1, value = 5\<rparr>" 1]
        move_faults_at_the_move [of "\<lparr>cells = [4, 5, 6], pointer = 1, value = 5\<rparr>" "- 2"]
  by simp



end
